theory Spec2Isabelle
  imports Main
begin

section \<open>JavaScript string operations used by the converter\<close>

text \<open>
  Source strings are modelled as \<^typ>\<open>string\<close>: one \<^typ>\<open>char\<close> per code unit,
  restricted to the code units below 256. The operations below are the library
  calls \<open>docxConverter.ts\<close> makes on strings.
\<close>

definition startsWith :: "string \<Rightarrow> string \<Rightarrow> bool" where
  "startsWith p s = (take (length p) s = p)"

definition endsWith :: "string \<Rightarrow> string \<Rightarrow> bool" where
  "endsWith p s = (length p \<le> length s \<and> drop (length s - length p) s = p)"

text \<open>\<open>s.slice(a, -b)\<close>: from index \<open>a\<close> up to \<open>b\<close> characters before the end;
  empty when the two bounds cross.\<close>

definition slice :: "nat \<Rightarrow> nat \<Rightarrow> string \<Rightarrow> string" where
  "slice a b s = take ((length s - b) - a) (drop a s)"

text \<open>The characters \<open>String.prototype.trim\<close> strips (white space and line
  terminators) among the code units below 256.\<close>

definition is_white_space :: "char \<Rightarrow> bool" where
  "is_white_space c = (c \<in> {CHR 0x09, CHR 0x0A, CHR 0x0B, CHR 0x0C, CHR 0x0D, CHR 0x20, CHR 0xA0})"

definition trim :: "string \<Rightarrow> string" where
  "trim s = rev (dropWhile is_white_space (rev (dropWhile is_white_space s)))"

text \<open>\<open>s.split(sep)\<close> for a non-empty separator string: the pieces between the
  occurrences of \<open>sep\<close>, found left to right; \<open>acc\<close> is the piece being read.\<close>

function split_on :: "string \<Rightarrow> string \<Rightarrow> string \<Rightarrow> string list" where
  "split_on sep acc [] = [acc]"
| "split_on sep acc (c # cs) =
     (if sep \<noteq> [] \<and> startsWith sep (c # cs)
      then acc # split_on sep [] (drop (length sep) (c # cs))
      else split_on sep (acc @ [c]) cs)"
  by pat_completeness auto
termination
  by (relation "measure (\<lambda>(sep, acc, s). length s)") auto

definition split_str :: "string \<Rightarrow> string \<Rightarrow> string list" where
  "split_str sep s = split_on sep [] s"

text \<open>Template-literal conversion of a non-negative integer: its decimal digits.\<close>

definition digit_char :: "nat \<Rightarrow> char" where
  "digit_char d = char_of (48 + d)"

fun show_nat :: "nat \<Rightarrow> string" where
  "show_nat n = (if n < 10 then [digit_char n] else show_nat (n div 10) @ [digit_char (n mod 10)])"

declare show_nat.simps [simp del]

section \<open>The regular expression of the inline formatter\<close>

text \<open>
  \<open>processFormattedText\<close> splits each line with
  \<^verbatim>\<open>/(\*\*.*?\*\*|\*.*?\*|`.*?`)/g\<close>.
  A dot matches any character but a line terminator; \<open>.*?\<close> is lazy, and the
  closing delimiter is the last thing of its alternative, so the match ends at the
  first place where the closing delimiter stands, provided no line terminator comes
  before it. \<open>lazy_dots close s\<close> is the number of characters \<open>.*?close\<close> matches
  at the start of \<open>s\<close>.
\<close>

definition is_line_terminator :: "char \<Rightarrow> bool" where
  "is_line_terminator c = (c = CHR 0x0A \<or> c = CHR 0x0D)"

fun lazy_dots :: "string \<Rightarrow> string \<Rightarrow> nat option" where
  "lazy_dots close [] = (if close = [] then Some 0 else None)"
| "lazy_dots close (c # cs) =
     (if startsWith close (c # cs) then Some (length close)
      else if is_line_terminator c then None
      else map_option Suc (lazy_dots close cs))"

definition match_span :: "string \<Rightarrow> string \<Rightarrow> string \<Rightarrow> nat option" where
  "match_span opn close s =
     (if startsWith opn s
      then map_option (\<lambda>n. length opn + n) (lazy_dots close (drop (length opn) s))
      else None)"

text \<open>The three alternatives, tried in the order they are written; the result is
  the length of the match at the start of \<open>s\<close>.\<close>

definition match_inline :: "string \<Rightarrow> nat option" where
  "match_inline s =
     (case match_span ''**'' ''**'' s of
        Some n \<Rightarrow> Some n
      | None \<Rightarrow>
         (case match_span ''*'' ''*'' s of
            Some n \<Rightarrow> Some n
          | None \<Rightarrow> match_span ''`'' ''`'' s))"

text \<open>
  \<open>line.split(regex)\<close> with one capture group: the text before each match, then
  the match itself, and the rest after the last match. Where no match starts the
  position advances by one; an empty match would do the same.
\<close>

function split_inline_from :: "string \<Rightarrow> string \<Rightarrow> string list" where
  "split_inline_from acc [] = [acc]"
| "split_inline_from acc (c # cs) =
     (case match_inline (c # cs) of
        None \<Rightarrow> split_inline_from (acc @ [c]) cs
      | Some n \<Rightarrow>
          if n = 0 then split_inline_from (acc @ [c]) cs
          else acc # take n (c # cs) # split_inline_from [] (drop n (c # cs)))"
  by pat_completeness auto
termination
  by (relation "measure (\<lambda>(acc, s). length s)") auto

definition split_inline :: "string \<Rightarrow> string list" where
  "split_inline line = split_inline_from [] line"

section \<open>Runs and the inline formatter\<close>

text \<open>The options of a \<open>TextRun\<close>; an option the source leaves out is \<open>False\<close>,
  \<open>None\<close> or, for the text, the empty string.\<close>

record text_run =
  run_text :: string
  run_bold :: bool
  run_italics :: bool
  run_font :: string
  run_size :: nat
  run_break :: "nat option"

definition plain_run :: "string \<Rightarrow> text_run" where
  "plain_run t = \<lparr>run_text = t, run_bold = False, run_italics = False,
                  run_font = ''New Times Roman'', run_size = 24, run_break = None\<rparr>"

text \<open>The callback mapped over the non-empty parts of a line.\<close>

definition format_part :: "string \<Rightarrow> text_run" where
  "format_part part =
     (if startsWith ''**'' part \<and> endsWith ''**'' part
      then (plain_run (slice 2 2 part))\<lparr>run_bold := True\<rparr>
      else if startsWith ''*'' part \<and> endsWith ''*'' part \<and> \<not> startsWith ''**'' part
      then (plain_run (slice 1 1 part))\<lparr>run_italics := True\<rparr>
      else if startsWith ''`'' part \<and> endsWith ''`'' part
      then (plain_run (slice 1 1 part))\<lparr>run_font := ''Courier New''\<rparr>
      else plain_run part)"

definition line_runs :: "string \<Rightarrow> text_run list" where
  "line_runs line = map format_part (filter (\<lambda>part. part \<noteq> []) (split_inline line))"

text \<open>The loop over the lines: \<open>n\<close> is \<open>lines.length\<close>, \<open>lineIndex\<close> the index of
  the line at the head of the remaining lines.\<close>

fun lines_loop :: "nat \<Rightarrow> nat \<Rightarrow> string list \<Rightarrow> text_run list \<Rightarrow> text_run list" where
  "lines_loop n lineIndex [] allRuns = allRuns"
| "lines_loop n lineIndex (line # rest) allRuns =
     lines_loop n (Suc lineIndex) rest
       (allRuns @ line_runs line @
          (if lineIndex < n - 1 then [(plain_run [])\<lparr>run_break := Some 1\<rparr>] else []))"

definition processFormattedText :: "string \<Rightarrow> text_run list" where
  "processFormattedText txt =
     (let lines = split_str [CHR 0x0A] txt in lines_loop (length lines) 0 lines [])"

text \<open>The style flags of a run; a run is monospace when it carries the code font.\<close>

definition is_monospace :: "text_run \<Rightarrow> bool" where
  "is_monospace r = (run_font r = ''Courier New'')"

definition style_flags :: "text_run \<Rightarrow> nat" where
  "style_flags r = (if run_bold r then 1 else 0) + (if run_italics r then 1 else 0)
                  + (if is_monospace r then 1 else 0)"

section \<open>Inline spans, as the specification words them\<close>

text \<open>
  A span is a bold, an italic or a monospace text between its delimiters.
  \<open>span_source\<close> is the source text of a span and \<open>span_run\<close> the run the
  specification expects for it. A span is well formed when its text is not empty and
  on one line, and its closing delimiter is the first one after the opening: the text
  of an italic span has no asterisk, the text of a code span no backtick, and the text
  of a bold span has no two asterisks in a row and does not end with an asterisk.
\<close>

datatype span = Bold string | Italic string | Monospace string

fun span_source :: "span \<Rightarrow> string" where
  "span_source (Bold t) = ''**'' @ t @ ''**''"
| "span_source (Italic t) = ''*'' @ t @ ''*''"
| "span_source (Monospace t) = ''`'' @ t @ ''`''"

fun span_run :: "span \<Rightarrow> text_run" where
  "span_run (Bold t) = (plain_run t)\<lparr>run_bold := True\<rparr>"
| "span_run (Italic t) = (plain_run t)\<lparr>run_italics := True\<rparr>"
| "span_run (Monospace t) = (plain_run t)\<lparr>run_font := ''Courier New''\<rparr>"

fun span_flags :: "span \<Rightarrow> bool \<times> bool \<times> bool" where
  "span_flags (Bold t) = (True, False, False)"
| "span_flags (Italic t) = (False, True, False)"
| "span_flags (Monospace t) = (False, False, True)"

fun bold_text_ok :: "string \<Rightarrow> bool" where
  "bold_text_ok [] = True"
| "bold_text_ok [c] = (c \<noteq> CHR ''*'')"
| "bold_text_ok (c # d # cs) = (\<not> (c = CHR ''*'' \<and> d = CHR ''*'') \<and> bold_text_ok (d # cs))"

definition one_line :: "string \<Rightarrow> bool" where
  "one_line t = list_all (\<lambda>c. \<not> is_line_terminator c) t"

fun well_formed_span :: "span \<Rightarrow> bool" where
  "well_formed_span (Bold t) = (t \<noteq> [] \<and> one_line t \<and> bold_text_ok t)"
| "well_formed_span (Italic t) = (t \<noteq> [] \<and> one_line t \<and> CHR ''*'' \<notin> set t)"
| "well_formed_span (Monospace t) = (t \<noteq> [] \<and> one_line t \<and> CHR ''`'' \<notin> set t)"

section \<open>Tokens of the external tokenizer\<close>

text \<open>
  \<open>marked.lexer\<close> is not part of the repository. Its tokens are a tagged union
  over the field \<open>type\<close>; the constructors below carry the fields the converter
  reads. \<open>TGeneric k\<close> is a token whose \<open>type\<close> is \<open>k\<close>, for the kinds the
  \<open>switch\<close> of the converter has no \<open>case\<close> for.
\<close>

datatype list_item = ListItem (item_text: string)

datatype md_cell = MdCell (cell_text: string)

datatype token =
    THeading nat string
  | TParagraph string
  | TList bool "list_item list"
  | TBlockquote "token list"
  | TCode string
  | THr
  | TTable "md_cell list" "md_cell list list"
  | TSpace
  | TGeneric string

fun token_type :: "token \<Rightarrow> string" where
  "token_type (THeading depth txt) = ''heading''"
| "token_type (TParagraph txt) = ''paragraph''"
| "token_type (TList ordered items) = ''list''"
| "token_type (TBlockquote toks) = ''blockquote''"
| "token_type (TCode txt) = ''code''"
| "token_type THr = ''hr''"
| "token_type (TTable header rows) = ''table''"
| "token_type TSpace = ''space''"
| "token_type (TGeneric k) = k"

definition is_paragraph :: "token \<Rightarrow> bool" where
  "is_paragraph tok = (case tok of TParagraph txt \<Rightarrow> True | _ \<Rightarrow> False)"

definition handled_kinds :: "string list" where
  "handled_kinds = [''heading'', ''paragraph'', ''list'', ''blockquote'', ''code'', ''hr'',
                    ''table'', ''space'']"

section \<open>Blocks handed to the document library\<close>

datatype heading_level =
  HEADING_1 | HEADING_2 | HEADING_3 | HEADING_4 | HEADING_5 | HEADING_6

text \<open>\<open>headingLevelMap[depth]\<close>; a depth outside the table reads \<open>undefined\<close>.\<close>

definition headingLevelMap :: "nat \<Rightarrow> heading_level option" where
  "headingLevelMap depth =
     (if depth = 1 then Some HEADING_1 else if depth = 2 then Some HEADING_2
      else if depth = 3 then Some HEADING_3 else if depth = 4 then Some HEADING_4
      else if depth = 5 then Some HEADING_5 else if depth = 6 then Some HEADING_6
      else None)"

record spacing =
  sp_before :: nat
  sp_after :: nat
  sp_line :: "nat option"
  sp_lineRule :: "string option"

record indent =
  ind_left :: nat
  ind_hanging :: "nat option"

datatype border_style = SINGLE

record border_side =
  bs_color :: string
  bs_space :: nat
  bs_style :: border_style
  bs_size :: nat

record border =
  bd_left :: "border_side option"
  bd_bottom :: "border_side option"

record numbering_use =
  nu_reference :: string
  nu_level :: nat

record shading =
  sh_type :: "string option"
  sh_fill :: string

text \<open>The options of a \<open>Paragraph\<close>; \<open>'c\<close> is the type of its children. An option
  the source leaves out is \<open>None\<close>.\<close>

record 'c para =
  p_text :: "string option"
  p_heading :: "heading_level option"
  p_children :: "'c list option"
  p_spacing :: "spacing option"
  p_numbering :: "numbering_use option"
  p_bullet :: "nat option"
  p_indent :: "indent option"
  p_border :: "border option"
  p_shading :: "shading option"

definition empty_paragraph :: "'c para" where
  "empty_paragraph = \<lparr>p_text = None, p_heading = None, p_children = None, p_spacing = None,
     p_numbering = None, p_bullet = None, p_indent = None, p_border = None, p_shading = None\<rparr>"

record table_cell =
  tc_children :: "text_run para list"
  tc_shading :: "shading option"

record table =
  tb_rows :: "table_cell list list"
  tb_width :: "nat \<times> string"

datatype child = RunChild text_run | TableChild table

type_synonym block = "child para"

definition simple_spacing :: "nat \<Rightarrow> nat \<Rightarrow> spacing" where
  "simple_spacing b a = \<lparr>sp_before = b, sp_after = a, sp_line = None, sp_lineRule = None\<rparr>"

definition line_spacing :: "nat \<Rightarrow> nat \<Rightarrow> spacing" where
  "line_spacing b a = \<lparr>sp_before = b, sp_after = a, sp_line = Some 300, sp_lineRule = Some ''auto''\<rparr>"

text \<open>The paragraph pushed for a blank-space token that follows a token of another type.\<close>

definition blank_spacer :: block where
  "blank_spacer = empty_paragraph\<lparr>p_spacing := Some (simple_spacing 80 80)\<rparr>"

text \<open>The paragraph pushed between sections and for an empty section.\<close>

definition section_spacer :: block where
  "section_spacer = empty_paragraph\<lparr>p_children := Some [RunChild (plain_run [])],
                                     p_spacing := Some (simple_spacing 120 120)\<rparr>"

section \<open>The block translator: the loop over the tokens of one section\<close>

record section_state =
  children :: "block list"
  lastTokenType :: "string option"
  consecutiveBreaks :: nat
  listCounter :: nat
  logged :: "string list"

definition initial_section_state :: section_state where
  "initial_section_state = \<lparr>children = [], lastTokenType = None, consecutiveBreaks = 0,
                             listCounter = 0, logged = []\<rparr>"

definition push :: "block \<Rightarrow> section_state \<Rightarrow> section_state" where
  "push b st = st\<lparr>children := children st @ [b]\<rparr>"

text \<open>The test before the \<open>switch\<close>. \<open>lastTokenType\<close> counts as true when it is
  neither \<open>null\<close> nor the empty string.\<close>

definition type_changed :: "section_state \<Rightarrow> token \<Rightarrow> section_state" where
  "type_changed st tok =
     (case lastTokenType st of
        None \<Rightarrow> st
      | Some l \<Rightarrow>
          if l \<noteq> [] \<and> l \<noteq> token_type tok then
            (if token_type tok = ''space'' then
               (let st1 = st\<lparr>consecutiveBreaks := consecutiveBreaks st + 1\<rparr>
                in if consecutiveBreaks st1 \<le> 1 then push blank_spacer st1 else st1)
             else st\<lparr>consecutiveBreaks := 0\<rparr>)
          else st)"

text \<open>The loop over the items of a list token.\<close>

definition list_item_block :: "bool \<Rightarrow> string option \<Rightarrow> bool \<Rightarrow> list_item \<Rightarrow> block" where
  "list_item_block ordered numberingRef isFirstItem item =
     (let runs = processFormattedText (item_text item);
          p = empty_paragraph\<lparr>p_children := Some (map RunChild runs),
                p_spacing := Some (line_spacing (if isFirstItem then 80 else 40) 40),
                p_indent := Some \<lparr>ind_left = 720, ind_hanging = Some 360\<rparr>\<rparr>
      in if ordered
         then p\<lparr>p_numbering := Some \<lparr>nu_reference = the numberingRef, nu_level = 0\<rparr>\<rparr>
         else p\<lparr>p_bullet := Some 0\<rparr>)"

fun items_loop :: "bool \<Rightarrow> string option \<Rightarrow> bool \<Rightarrow> list_item list \<Rightarrow> section_state \<Rightarrow> section_state" where
  "items_loop ordered numberingRef isFirstItem [] st = st"
| "items_loop ordered numberingRef isFirstItem (item # rest) st =
     items_loop ordered numberingRef False rest
       (push (list_item_block ordered numberingRef isFirstItem item) st)"

text \<open>The loop over the nested tokens of a blockquote token.\<close>

definition quote_block :: "string \<Rightarrow> block" where
  "quote_block txt =
     empty_paragraph\<lparr>p_children := Some (map RunChild (processFormattedText txt)),
       p_spacing := Some (line_spacing 60 60),
       p_indent := Some \<lparr>ind_left = 720, ind_hanging = None\<rparr>,
       p_border := Some \<lparr>bd_left = Some \<lparr>bs_color = ''AAAAAA'', bs_space = 15,
                                            bs_style = SINGLE, bs_size = 15\<rparr>,
                          bd_bottom = None\<rparr>\<rparr>"

fun quote_loop :: "token list \<Rightarrow> section_state \<Rightarrow> section_state" where
  "quote_loop [] st = st"
| "quote_loop (quoteToken # rest) st =
     quote_loop rest
       (case quoteToken of
          TParagraph txt \<Rightarrow> push (quote_block txt) st
        | _ \<Rightarrow> st)"

text \<open>The cells of a table token.\<close>

definition cell_paragraph :: "md_cell \<Rightarrow> text_run para" where
  "cell_paragraph cell =
     empty_paragraph\<lparr>p_children := Some (processFormattedText (cell_text cell)),
                     p_spacing := Some (simple_spacing 40 40)\<rparr>"

definition header_cell :: "md_cell \<Rightarrow> table_cell" where
  "header_cell cell = \<lparr>tc_children = [cell_paragraph cell],
                       tc_shading = Some \<lparr>sh_type = None, sh_fill = ''EEEEEE''\<rparr>\<rparr>"

definition body_cell :: "md_cell \<Rightarrow> table_cell" where
  "body_cell cell = \<lparr>tc_children = [cell_paragraph cell], tc_shading = None\<rparr>"

fun rows_loop :: "md_cell list list \<Rightarrow> table_cell list list \<Rightarrow> table_cell list list" where
  "rows_loop [] rows = rows"
| "rows_loop (row # rest) rows = rows_loop rest (rows @ [map body_cell row])"

text \<open>The \<open>switch\<close> on the token's type. The \<open>code\<close> case builds one new run for
  each run of the inline formatter, from \<open>{ ...run, font, size }\<close>: \<open>run\<close> is a
  \<open>TextRun\<close> object, not its options, so the spread copies no text, no flag and no
  break, and the new run has the code font and the size 20 only.\<close>

fun emit :: "section_state \<Rightarrow> token \<Rightarrow> section_state" where
  "emit st (THeading depth txt) =
     push (empty_paragraph\<lparr>p_text := Some txt, p_heading := headingLevelMap depth,
                            p_spacing := Some (simple_spacing 200 100)\<rparr>)
          (st\<lparr>consecutiveBreaks := 0\<rparr>)"
| "emit st (TParagraph txt) =
     push (empty_paragraph\<lparr>p_children := Some (map RunChild (processFormattedText txt)),
                            p_spacing := Some (line_spacing 60 60)\<rparr>)
          (st\<lparr>consecutiveBreaks := 0\<rparr>)"
| "emit st (TList ordered items) =
     (let st0 = st\<lparr>consecutiveBreaks := 0\<rparr>;
          numberingRef = (if ordered then Some (''list-'' @ show_nat (listCounter st0)) else None);
          st1 = (if ordered then st0\<lparr>listCounter := listCounter st0 + 1\<rparr> else st0)
      in items_loop ordered numberingRef True items st1)"
| "emit st (TBlockquote toks) = quote_loop toks (st\<lparr>consecutiveBreaks := 0\<rparr>)"
| "emit st (TCode txt) =
     (let runs = map (\<lambda>run. \<lparr>run_text = [], run_bold = False, run_italics = False,
                             run_font = ''Courier New'', run_size = 20, run_break = None\<rparr>)
                     (processFormattedText txt)
      in push (empty_paragraph\<lparr>p_children := Some (map RunChild runs),
                 p_spacing := Some (line_spacing 80 80),
                 p_shading := Some \<lparr>sh_type = Some ''clear'', sh_fill = ''F5F5F5''\<rparr>\<rparr>)
              (st\<lparr>consecutiveBreaks := 0\<rparr>))"
| "emit st THr =
     push (empty_paragraph\<lparr>p_border := Some \<lparr>bd_left = None,
              bd_bottom = Some \<lparr>bs_color = ''AAAAAA'', bs_space = 1, bs_style = SINGLE, bs_size = 1\<rparr>\<rparr>,
              p_spacing := Some (simple_spacing 120 120)\<rparr>)
          (st\<lparr>consecutiveBreaks := 0\<rparr>)"
| "emit st (TTable header rows) =
     (let tbl = \<lparr>tb_rows = rows_loop rows [map header_cell header], tb_width = (100, ''pct'')\<rparr>
      in push (empty_paragraph\<lparr>p_children := Some [TableChild tbl]\<rparr>)
              (st\<lparr>consecutiveBreaks := 0\<rparr>))"
| "emit st TSpace = st"
| "emit st (TGeneric k) =
     st\<lparr>logged := logged st @ [''Unhandled token type: '' @ k], consecutiveBreaks := 0\<rparr>"

text \<open>One pass of the loop body, and the loop.\<close>

definition process_token :: "section_state \<Rightarrow> token \<Rightarrow> section_state" where
  "process_token st tok = (emit (type_changed st tok) tok)\<lparr>lastTokenType := Some (token_type tok)\<rparr>"

fun tokens_loop :: "section_state \<Rightarrow> token list \<Rightarrow> section_state" where
  "tokens_loop st [] = st"
| "tokens_loop st (tok # rest) = tokens_loop (process_token st tok) rest"

section \<open>The document: sections, numbering definitions, assembly\<close>

text \<open>The custom paragraph break marker: a backslash followed by \<open>p\<close>.\<close>

definition CUSTOM_PARAGRAPH_BREAK :: string where
  "CUSTOM_PARAGRAPH_BREAK = [CHR 0x5C, CHR ''p'']"

text \<open>
  The tokenizer is a parameter of the model: a function from the trimmed text of a
  section to its tokens, or to the exception it throws. The calls to the logger are
  kept as a list of entries, in the order they are made.
\<close>

datatype error = TokenizerError string

datatype log_entry =
    InputSample string nat
  | Info string
  | ErrorEntry error

type_synonym lexer = "string \<Rightarrow> error + token list"

record conv_state =
  allChildren :: "block list"
  conv_log :: "log_entry list"

text \<open>
  The loop over the sections: \<open>n\<close> is \<open>sections.length\<close>, \<open>sectionIndex\<close> the index
  of the section at the head of the remaining ones. An exception of the tokenizer
  leaves the loop with the state reached so far.
\<close>

definition translate_section :: "token list \<Rightarrow> section_state" where
  "translate_section tokens = tokens_loop initial_section_state tokens"

fun sections_loop :: "lexer \<Rightarrow> nat \<Rightarrow> nat \<Rightarrow> string list \<Rightarrow> conv_state \<Rightarrow> (error \<times> conv_state) + conv_state" where
  "sections_loop lexer n sectionIndex [] st = Inr st"
| "sections_loop lexer n sectionIndex (section # rest) st =
     (if trim section = [] then
        sections_loop lexer n (Suc sectionIndex) rest
          (if sectionIndex > 0 then st\<lparr>allChildren := allChildren st @ [section_spacer]\<rparr> else st)
      else
        (case lexer (trim section) of
           Inl e \<Rightarrow> Inl (e, st)
         | Inr tokens \<Rightarrow>
             (let sec = translate_section tokens;
                  st1 = st\<lparr>allChildren := allChildren st @ children sec,
                          conv_log := conv_log st @ map Info (logged sec)\<rparr>;
                  st2 = (if sectionIndex < n - 1
                         then st1\<lparr>allChildren := allChildren st1 @ [section_spacer]\<rparr>
                         else st1)
              in sections_loop lexer n (Suc sectionIndex) rest st2)))"

datatype alignment = LEFT

record level_config =
  lv_level :: nat
  lv_format :: string
  lv_text :: string
  lv_alignment :: alignment
  lv_indent :: indent

record numbering_config =
  nc_reference :: string
  nc_levels :: "level_config list"

definition numbering_entry :: "nat \<Rightarrow> numbering_config" where
  "numbering_entry i =
     \<lparr>nc_reference = ''list-'' @ show_nat i,
      nc_levels = [\<lparr>lv_level = 0, lv_format = ''decimal'', lv_text = ''%1.'', lv_alignment = LEFT,
                    lv_indent = \<lparr>ind_left = 720, ind_hanging = Some 360\<rparr>\<rparr>]\<rparr>"

function numbering_loop :: "nat \<Rightarrow> numbering_config list \<Rightarrow> numbering_config list" where
  "numbering_loop i numberingConfigs =
     (if i < 100 then numbering_loop (i + 1) (numberingConfigs @ [numbering_entry i])
      else numberingConfigs)"
  by pat_completeness auto
termination
  by (relation "measure (\<lambda>(i, cs). 100 - i)") auto

declare numbering_loop.simps [simp del]

text \<open>
  What \<open>convertMarkdownToDocx\<close> hands to the document library: the numbering
  definitions and the children of the one section of the document. The style
  defaults are constants of the source and are left out; the serialisation by
  \<open>Packer.toBuffer\<close> is outside the repository.
\<close>

record document =
  doc_numbering :: "numbering_config list"
  doc_children :: "block list"

definition convertMarkdownToDocx :: "lexer \<Rightarrow> string \<Rightarrow> log_entry list \<times> (error + document)" where
  "convertMarkdownToDocx lexer markdownContent =
     (let st0 = \<lparr>allChildren = [],
                 conv_log = [InputSample (take (min 200 (length markdownContent)) markdownContent)
                                         (length markdownContent)]\<rparr>;
          sections = split_str CUSTOM_PARAGRAPH_BREAK markdownContent
      in case sections_loop lexer (length sections) 0 sections st0 of
           Inl (e, st) \<Rightarrow> (conv_log st @ [ErrorEntry e], Inl e)
         | Inr st \<Rightarrow>
             (conv_log st @
                [Info (''Generated DOCX with '' @ show_nat (length (allChildren st)) @ '' paragraphs'')],
              Inr \<lparr>doc_numbering = numbering_loop 0 [], doc_children = allChildren st\<rparr>))"

text \<open>
  A stand-in for the tokenizer on the simplest inputs, for evaluating the converter:
  a section that starts with \<open>1. \<close> is an ordered list of one item, any other section
  is one paragraph.
\<close>

definition sample_lexer :: lexer where
  "sample_lexer src =
     (if startsWith ''1. '' src then Inr [TList True [ListItem (drop 3 src)]]
      else Inr [TParagraph src])"

text \<open>The number of places of \<open>s\<close> where \<open>sep\<close> stands.\<close>

fun occurrences :: "string \<Rightarrow> string \<Rightarrow> nat" where
  "occurrences sep [] = 0"
| "occurrences sep (c # cs) = (if startsWith sep (c # cs) then 1 else 0) + occurrences sep cs"

text \<open>A block that differs from the section spacer in its spacing or its border.\<close>

definition not_section_spacer :: "block \<Rightarrow> bool" where
  "not_section_spacer b = (p_spacing b \<noteq> Some (simple_spacing 120 120) \<or> p_border b \<noteq> None)"

section \<open>Properties of the inline formatter\<close>

lemma style_flags_format_part: "style_flags (format_part part) \<le> 1"
  by (simp add: format_part_def style_flags_def is_monospace_def plain_run_def)

lemma style_flags_break_run: "style_flags ((plain_run [])\<lparr>run_break := Some 1\<rparr>) = 0"
  by (simp add: style_flags_def is_monospace_def plain_run_def)

lemma lines_loop_flags:
  "\<forall>r\<in>set allRuns. style_flags r \<le> 1 \<Longrightarrow> \<forall>r\<in>set (lines_loop n i ls allRuns). style_flags r \<le> 1"
proof (induction ls arbitrary: i allRuns)
  case Nil
  then show ?case by simp
next
  case (Cons line rest)
  show ?case
    unfolding lines_loop.simps
    by (rule Cons.IH)
       (use Cons.prems in \<open>auto simp add: line_runs_def style_flags_format_part style_flags_break_run
                                simp del: One_nat_def\<close>)
qed

text \<open>
  Claim C10. Every run the inline formatter returns carries at most one of the three
  style flags bold, italic and monospace, whatever the text: \<open>style_flags\<close> counts
  the flags a run carries.
\<close>

theorem inline_runs_single_style:
  "\<forall>r\<in>set (processFormattedText txt). style_flags r \<le> 1"
  unfolding processFormattedText_def Let_def by (rule lines_loop_flags) simp

theorem inline_runs_single_style_witness:
  "(plain_run ''b'')\<lparr>run_bold := True\<rparr> \<in> set (processFormattedText ''a **b** *c* `d`'')
   \<and> style_flags ((plain_run ''b'')\<lparr>run_bold := True\<rparr>) \<le> 1"
proof -
  have "processFormattedText ''a **b** *c* `d`'' =
          [plain_run ''a '', (plain_run ''b'')\<lparr>run_bold := True\<rparr>, plain_run '' '',
           (plain_run ''c'')\<lparr>run_italics := True\<rparr>, plain_run '' '',
           (plain_run ''d'')\<lparr>run_font := ''Courier New''\<rparr>]"
    by code_simp
  then have "(plain_run ''b'')\<lparr>run_bold := True\<rparr> \<in> set (processFormattedText ''a **b** *c* `d`'')"
    by simp
  with inline_runs_single_style [of "''a **b** *c* `d`''"] show ?thesis
    by blast
qed

lemma split_on_absent: "c \<notin> set s \<Longrightarrow> split_on [c] acc s = [acc @ s]"
  by (induction s arbitrary: acc) (auto simp: startsWith_def)

lemma lines_single: "CHR 0x0A \<notin> set txt \<Longrightarrow> processFormattedText txt = line_runs txt"
  by (simp add: processFormattedText_def split_str_def split_on_absent)

lemma lazy_dots_bold:
  "bold_text_ok b \<Longrightarrow> \<forall>c\<in>set b. \<not> is_line_terminator c \<Longrightarrow>
   lazy_dots ''**'' (b @ ''**'' @ rest) = Some (length b + 2)"
  by (induction b rule: bold_text_ok.induct) (auto simp: startsWith_def)

lemma lazy_dots_single:
  "d \<notin> set x \<Longrightarrow> \<forall>c\<in>set x. \<not> is_line_terminator c \<Longrightarrow>
   lazy_dots [d] (x @ [d] @ rest) = Some (length x + 1)"
  by (induction x) (auto simp: startsWith_def)

lemma match_inline_bold:
  "bold_text_ok b \<Longrightarrow> \<forall>c\<in>set b. \<not> is_line_terminator c \<Longrightarrow>
   match_inline (''**'' @ b @ ''**'' @ rest) = Some (length (''**'' @ b @ ''**''))"
  using lazy_dots_bold [of b rest]
  by (simp add: match_inline_def match_span_def startsWith_def)

lemma match_inline_italic:
  "i \<noteq> [] \<Longrightarrow> CHR ''*'' \<notin> set i \<Longrightarrow> \<forall>c\<in>set i. \<not> is_line_terminator c \<Longrightarrow>
   match_inline (''*'' @ i @ ''*'' @ rest) = Some (length (''*'' @ i @ ''*''))"
  using lazy_dots_single [of "CHR ''*''" i rest]
  by (cases i) (auto simp add: match_inline_def match_span_def startsWith_def)

lemma match_inline_code:
  "CHR ''`'' \<notin> set c \<Longrightarrow> \<forall>x\<in>set c. \<not> is_line_terminator x \<Longrightarrow>
   match_inline (''`'' @ c @ ''`'' @ rest) = Some (length (''`'' @ c @ ''`''))"
  using lazy_dots_single [of "CHR ''`''" c rest]
  by (simp add: match_inline_def match_span_def startsWith_def)

lemma split_inline_from_match:
  "match_inline (m @ rest) = Some (length m) \<Longrightarrow> m \<noteq> [] \<Longrightarrow>
   split_inline_from acc (m @ rest) = acc # m # split_inline_from [] rest"
  by (cases m) auto

lemma format_part_bold: "format_part (''**'' @ b @ ''**'') = (plain_run b)\<lparr>run_bold := True\<rparr>"
  by (simp add: format_part_def startsWith_def endsWith_def slice_def)

lemma format_part_italic:
  "i \<noteq> [] \<Longrightarrow> CHR ''*'' \<notin> set i \<Longrightarrow>
   format_part (''*'' @ i @ ''*'') = (plain_run i)\<lparr>run_italics := True\<rparr>"
  by (cases i) (auto simp add: format_part_def startsWith_def endsWith_def slice_def)

lemma format_part_code:
  "format_part (''`'' @ c @ ''`'') = (plain_run c)\<lparr>run_font := ''Courier New''\<rparr>"
  by (simp add: format_part_def startsWith_def endsWith_def slice_def)

lemma match_inline_span:
  "well_formed_span sp \<Longrightarrow>
   match_inline (span_source sp @ rest) = Some (length (span_source sp))"
proof (cases sp)
  case (Bold t)
  assume "well_formed_span sp"
  with Bold match_inline_bold [of t rest] show ?thesis
    by (simp add: one_line_def list_all_iff)
next
  case (Italic t)
  assume "well_formed_span sp"
  with Italic match_inline_italic [of t rest] show ?thesis
    by (simp add: one_line_def list_all_iff)
next
  case (Monospace t)
  assume "well_formed_span sp"
  with Monospace match_inline_code [of t rest] show ?thesis
    by (simp add: one_line_def list_all_iff)
qed

lemma format_part_span: "well_formed_span sp \<Longrightarrow> format_part (span_source sp) = span_run sp"
proof (cases sp)
  case (Bold t)
  then show ?thesis using format_part_bold [of t] by simp
next
  case (Italic t)
  assume "well_formed_span sp"
  with Italic format_part_italic [of t] show ?thesis
    by simp
next
  case (Monospace t)
  then show ?thesis using format_part_code [of t] by simp
qed

lemma span_source_nonempty: "span_source sp \<noteq> []"
  by (cases sp) simp_all

lemma split_inline_spans:
  "list_all well_formed_span spans \<Longrightarrow>
   split_inline_from [] (concat (map span_source spans)) =
     concat (map (\<lambda>sp. [[], span_source sp]) spans) @ [[]]"
proof (induction spans)
  case Nil
  then show ?case by simp
next
  case (Cons sp spans)
  then have wf: "well_formed_span sp" and rest: "list_all well_formed_span spans"
    by simp_all
  have "split_inline_from [] (span_source sp @ concat (map span_source spans)) =
          [] # span_source sp # split_inline_from [] (concat (map span_source spans))"
    by (rule split_inline_from_match [OF match_inline_span [OF wf] span_source_nonempty])
  with Cons.IH [OF rest] show ?case by simp
qed

lemma line_runs_spans:
  assumes "list_all well_formed_span spans"
  shows "line_runs (concat (map span_source spans)) = map span_run spans"
proof -
  have "filter (\<lambda>part. part \<noteq> []) (concat (map (\<lambda>sp. [[], span_source sp]) spans) @ [[]]) =
          map span_source spans"
    by (induction spans) (simp_all add: span_source_nonempty)
  then have "line_runs (concat (map span_source spans)) = map (\<lambda>sp. format_part (span_source sp)) spans"
    by (simp add: line_runs_def split_inline_def split_inline_spans [OF assms] comp_def)
  also have "\<dots> = map span_run spans"
    using assms by (induction spans) (simp_all add: format_part_span)
  finally show ?thesis .
qed

lemma spans_one_line:
  "list_all well_formed_span spans \<Longrightarrow> CHR 0x0A \<notin> set (concat (map span_source spans))"
proof (induction spans)
  case Nil
  then show ?case by simp
next
  case (Cons sp spans)
  then have "CHR 0x0A \<notin> set (span_source sp)"
    by (cases sp) (auto simp: one_line_def list_all_iff is_line_terminator_def)
  with Cons show ?case by simp
qed

lemma spans_roundtrip:
  assumes "list_all well_formed_span spans"
  shows "processFormattedText (concat (map span_source spans)) = map span_run spans"
  using lines_single [OF spans_one_line [OF assms]] line_runs_spans [OF assms] by simp

lemma span_run_flags:
  "(run_bold (span_run sp), run_italics (span_run sp), is_monospace (span_run sp)) = span_flags sp"
  by (cases sp) (simp_all add: plain_run_def is_monospace_def)

text \<open>
  Claim C5, amended. A text made of one \<open>**bold**\<close> span, one \<open>*italic*\<close> span
  and one backtick-delimited span, in any order and with nothing else, where each
  span is well formed, gives exactly three runs, one per span in source order: the
  run of the bold span is bold only, the run of the italic span italic only, the run
  of the code span monospace only, each with the text between the delimiters, and
  none of the three is empty. Well formed means: the text of the span is not empty
  and on one line, the text of the italic span has no asterisk, the text of the code
  span no backtick, and the text of the bold span has no two asterisks in a row and
  does not end with an asterisk.
\<close>

theorem three_spans_three_runs:
  assumes "well_formed_span (Bold b)" and "well_formed_span (Italic i)"
    and "well_formed_span (Monospace c)"
    and "set spans = {Bold b, Italic i, Monospace c}" and "length spans = 3"
  shows "processFormattedText (concat (map span_source spans)) = map span_run spans
         \<and> length (processFormattedText (concat (map span_source spans))) = 3
         \<and> map (\<lambda>r. (run_bold r, run_italics r, is_monospace r))
               (processFormattedText (concat (map span_source spans))) = map span_flags spans
         \<and> (\<forall>r\<in>set (processFormattedText (concat (map span_source spans))). run_text r \<noteq> [])"
proof -
  from assms(1-4) have wf: "list_all well_formed_span spans"
    by (auto simp: list_all_iff)
  have eq: "processFormattedText (concat (map span_source spans)) = map span_run spans"
    by (rule spans_roundtrip [OF wf])
  have flags: "map (\<lambda>r. (run_bold r, run_italics r, is_monospace r)) (map span_run spans) =
               map span_flags spans"
    by (simp add: span_run_flags)
  have "run_text (span_run sp) \<noteq> []" if "well_formed_span sp" for sp
    using that by (cases sp) (simp_all add: plain_run_def)
  with wf have texts: "\<forall>r\<in>set (map span_run spans). run_text r \<noteq> []"
    by (auto simp: list_all_iff)
  from flags texts assms(5) show ?thesis
    unfolding eq by simp
qed

theorem three_spans_three_runs_witness:
  "processFormattedText ''**bold***italic*`code`'' =
     [(plain_run ''bold'')\<lparr>run_bold := True\<rparr>, (plain_run ''italic'')\<lparr>run_italics := True\<rparr>,
      (plain_run ''code'')\<lparr>run_font := ''Courier New''\<rparr>]
   \<and> processFormattedText ''`code`*italic***bold**'' =
     [(plain_run ''code'')\<lparr>run_font := ''Courier New''\<rparr>, (plain_run ''italic'')\<lparr>run_italics := True\<rparr>,
      (plain_run ''bold'')\<lparr>run_bold := True\<rparr>]"
proof -
  have wf: "well_formed_span (Bold ''bold'')" "well_formed_span (Italic ''italic'')"
           "well_formed_span (Monospace ''code'')"
    by (simp_all add: one_line_def is_line_terminator_def)
  have "set [Bold ''bold'', Italic ''italic'', Monospace ''code''] =
          {Bold ''bold'', Italic ''italic'', Monospace ''code''}"
    and "set [Monospace ''code'', Italic ''italic'', Bold ''bold''] =
          {Bold ''bold'', Italic ''italic'', Monospace ''code''}"
    by auto
  from three_spans_three_runs [OF wf this(1)] three_spans_three_runs [OF wf this(2)]
  show ?thesis by simp
qed

text \<open>
  Claim C5 as stated fails when a span is not well formed. With an empty bold span
  the first of the three runs is a bold run of length zero. With an empty italic span
  the second run is bold, not italic, and of length zero. With a bold span over a
  line break the text gives seven runs.
\<close>

theorem three_spans_counterexample:
  "map (\<lambda>r. (run_text r, run_bold r, run_italics r, is_monospace r))
       (processFormattedText (span_source (Bold []) @ span_source (Italic ''i'')
                                @ span_source (Monospace ''c''))) =
     [([], True, False, False), (''i'', False, True, False), (''c'', False, False, True)]
   \<and> map (\<lambda>r. (run_text r, run_bold r, run_italics r, is_monospace r))
       (processFormattedText (span_source (Bold ''b'') @ span_source (Italic [])
                                @ span_source (Monospace ''c''))) =
     [(''b'', True, False, False), ([], True, False, False), (''c'', False, False, True)]
   \<and> length (processFormattedText (span_source (Bold (''b'' @ [CHR 0x0A] @ ''b''))
                                      @ span_source (Italic ''i'')
                                      @ span_source (Monospace ''c''))) = 7"
  by code_simp

section \<open>Properties of the block translator\<close>

lemma items_loop_rest:
  "items_loop ord ref False items st =
     st\<lparr>children := children st @ map (list_item_block ord ref False) items\<rparr>"
  by (induction items arbitrary: st) (simp_all add: push_def)

lemma items_loop_eq:
  "items_loop ord ref isFirst (item # rest) st =
     st\<lparr>children := children st @ list_item_block ord ref isFirst item
                                   # map (list_item_block ord ref False) rest\<rparr>"
  by (simp add: items_loop_rest push_def)

lemma quote_loop_eq:
  "quote_loop toks st = st\<lparr>children := children st @ [quote_block txt. TParagraph txt \<leftarrow> toks]\<rparr>"
  by (induction toks arbitrary: st) (simp_all add: push_def split: token.splits)

lemma type_changed_other:
  "token_type tok \<noteq> ''space'' \<Longrightarrow>
   type_changed st tok =
     st\<lparr>consecutiveBreaks :=
          (case lastTokenType st of
             None \<Rightarrow> consecutiveBreaks st
           | Some l \<Rightarrow> if l \<noteq> [] \<and> l \<noteq> token_type tok then 0 else consecutiveBreaks st)\<rparr>"
  by (simp add: type_changed_def split: option.splits)

lemma tokens_loop_append:
  "tokens_loop st (xs @ ys) = tokens_loop (tokens_loop st xs) ys"
  by (induction xs arbitrary: st) simp_all

text \<open>
  Claim C7. For a blockquote token the translator pushes one quote block for each
  nested paragraph token, in the order of the nested tokens, and nothing for a nested
  token of another kind; nothing is logged for the tokens it passes over. A quote
  block holds the runs of the paragraph's text, the indent 720 and the left border.
\<close>

theorem blockquote_renders_paragraphs:
  "children (process_token st (TBlockquote toks)) =
      children st @ [quote_block txt. TParagraph txt \<leftarrow> toks]
   \<and> length [quote_block txt. TParagraph txt \<leftarrow> toks] = length (filter is_paragraph toks)
   \<and> logged (process_token st (TBlockquote toks)) = logged st
   \<and> p_children (quote_block txt) = Some (map RunChild (processFormattedText txt))
   \<and> p_indent (quote_block txt) = Some \<lparr>ind_left = 720, ind_hanging = None\<rparr>
   \<and> map_option bd_left (p_border (quote_block txt)) =
        Some (Some \<lparr>bs_color = ''AAAAAA'', bs_space = 15, bs_style = SINGLE, bs_size = 15\<rparr>)"
proof -
  have "length [quote_block txt. TParagraph txt \<leftarrow> toks] = length (filter is_paragraph toks)"
    by (induction toks) (simp_all add: is_paragraph_def split: token.splits)
  then show ?thesis
    by (simp add: process_token_def type_changed_other quote_loop_eq quote_block_def)
qed

text \<open>
  Claim C6. A token whose kind the \<open>switch\<close> has no case for changes the state in
  three fields only: the diagnostic is appended to the log, the count of consecutive
  blank tokens is reset to 0, and its type becomes the last type seen. No block is
  pushed, and the loop goes on with the tokens after it from that state. The loop body
  is a total function on states: it has no failing branch.
\<close>

theorem unrecognized_token_skipped:
  assumes "k \<notin> set handled_kinds"
  shows "process_token st (TGeneric k) =
           st\<lparr>consecutiveBreaks := 0, logged := logged st @ [''Unhandled token type: '' @ k],
              lastTokenType := Some k\<rparr>
         \<and> children (process_token st (TGeneric k)) = children st
         \<and> tokens_loop st (pre @ TGeneric k # post) =
             tokens_loop ((tokens_loop st pre)\<lparr>consecutiveBreaks := 0,
                            logged := logged (tokens_loop st pre) @ [''Unhandled token type: '' @ k],
                            lastTokenType := Some k\<rparr>) post"
proof -
  from assms have k: "k \<noteq> ''space''" by (auto simp: handled_kinds_def)
  have step: "process_token s (TGeneric k) =
           s\<lparr>consecutiveBreaks := 0, logged := logged s @ [''Unhandled token type: '' @ k],
              lastTokenType := Some k\<rparr>" for s
    using k by (simp add: process_token_def type_changed_other)
  show ?thesis
    by (simp add: step tokens_loop_append)
qed

theorem unrecognized_token_skipped_witness:
  "children (translate_section [TParagraph ''a'', TGeneric ''html'', THr]) =
     children (translate_section [TParagraph ''a'']) @ children (translate_section [THr])
   \<and> logged (translate_section [TParagraph ''a'', TGeneric ''html'', THr]) =
       [''Unhandled token type: html'']"
proof -
  have k: "''html'' \<notin> set handled_kinds"
    by (simp add: handled_kinds_def)
  from unrecognized_token_skipped [OF k, of initial_section_state "[TParagraph ''a'']" "[THr]"]
  show ?thesis
    by (simp add: translate_section_def process_token_def type_changed_def push_def
          initial_section_state_def)
qed

lemma items_loop_cases:
  "items_loop ord ref isFirst items st =
     st\<lparr>children := children st @
          (case items of [] \<Rightarrow> []
           | item # rest \<Rightarrow> list_item_block ord ref isFirst item
                             # map (list_item_block ord ref False) rest)\<rparr>"
  by (cases items) (simp_all add: items_loop_rest push_def)

lemma breaks_reset:
  "token_type t \<noteq> ''space'' \<Longrightarrow> consecutiveBreaks (process_token st t) = 0"
  by (cases t) (simp_all add: process_token_def type_changed_other push_def quote_loop_eq
                  items_loop_cases Let_def)

lemma last_type: "lastTokenType (process_token st t) = Some (token_type t)"
  by (simp add: process_token_def)

lemma space_after_other:
  "lastTokenType st = Some l \<Longrightarrow> l \<noteq> [] \<Longrightarrow> l \<noteq> ''space'' \<Longrightarrow> consecutiveBreaks st = 0 \<Longrightarrow>
   process_token st TSpace =
     st\<lparr>consecutiveBreaks := 1, children := children st @ [blank_spacer],
        lastTokenType := Some ''space''\<rparr>"
  by (simp add: process_token_def type_changed_def push_def)

lemma space_after_space:
  "lastTokenType st = Some ''space'' \<Longrightarrow> process_token st TSpace = st"
  by (simp add: process_token_def type_changed_def)

lemma space_at_start:
  "lastTokenType st = None \<Longrightarrow> process_token st TSpace = st\<lparr>lastTokenType := Some ''space''\<rparr>"
  by (simp add: process_token_def type_changed_def)

lemma spaces_after_space:
  "lastTokenType st = Some ''space'' \<Longrightarrow> tokens_loop st (replicate n TSpace) = st"
  by (induction n) (simp_all add: space_after_space)

text \<open>
  Claim C2, amended. A run of \<open>n \<ge> 1\<close> blank-space tokens that follows a token of
  another, non-empty type pushes exactly one spacer block, whatever \<open>n\<close> is: after
  the run the state is the state before it with one \<open>blank_spacer\<close> appended, and the
  tokens after the run are processed from there. A run at the start of a section
  pushes nothing: the test before the \<open>switch\<close> needs a last token type.
\<close>

theorem blank_run_one_spacer:
  assumes "token_type t \<noteq> ''space''" and "token_type t \<noteq> []" and "1 \<le> n"
  shows "tokens_loop s0 (pre @ [t] @ replicate n TSpace @ post) =
           tokens_loop ((tokens_loop s0 (pre @ [t]))
                          \<lparr>consecutiveBreaks := 1,
                           children := children (tokens_loop s0 (pre @ [t])) @ [blank_spacer],
                           lastTokenType := Some ''space''\<rparr>) post
         \<and> tokens_loop initial_section_state (replicate n TSpace @ post) =
             tokens_loop (initial_section_state\<lparr>lastTokenType := Some ''space''\<rparr>) post"
proof -
  from assms(3) obtain m where n: "n = Suc m" by (cases n) auto
  let ?st = "tokens_loop s0 (pre @ [t])"
  have st: "?st = process_token (tokens_loop s0 pre) t"
    by (simp add: tokens_loop_append)
  have lt: "lastTokenType ?st = Some (token_type t)" and cb: "consecutiveBreaks ?st = 0"
    unfolding st using assms(1) by (simp_all add: last_type breaks_reset)
  let ?st1 = "?st\<lparr>consecutiveBreaks := 1, children := children ?st @ [blank_spacer],
                   lastTokenType := Some ''space''\<rparr>"
  have first: "process_token ?st TSpace = ?st1"
    by (rule space_after_other [OF lt assms(2,1) cb])
  have "tokens_loop ?st (replicate n TSpace) = tokens_loop ?st1 (replicate m TSpace)"
    by (simp add: n first)
  also have "\<dots> = ?st1"
    by (rule spaces_after_space) simp
  finally have run: "tokens_loop ?st (replicate n TSpace) = ?st1" .
  have a: "tokens_loop s0 (pre @ [t] @ replicate n TSpace @ post) = tokens_loop ?st1 post"
    using run tokens_loop_append [of s0 "pre @ [t]" "replicate n TSpace @ post"]
          tokens_loop_append [of ?st "replicate n TSpace" post]
    by simp
  let ?i1 = "initial_section_state\<lparr>lastTokenType := Some ''space''\<rparr>"
  have "tokens_loop initial_section_state (replicate n TSpace) = tokens_loop ?i1 (replicate m TSpace)"
    by (simp add: n space_at_start initial_section_state_def)
  also have "\<dots> = ?i1"
    by (rule spaces_after_space) simp
  finally have b: "tokens_loop initial_section_state (replicate n TSpace @ post) = tokens_loop ?i1 post"
    by (simp add: tokens_loop_append)
  from a b show ?thesis by simp
qed

theorem blank_run_one_spacer_witness:
  "children (translate_section [TParagraph ''a'', TSpace, TSpace, TSpace, THr]) =
     children (translate_section [TParagraph ''a'']) @ [blank_spacer]
       @ [empty_paragraph\<lparr>p_border := Some \<lparr>bd_left = None,
              bd_bottom = Some \<lparr>bs_color = ''AAAAAA'', bs_space = 1, bs_style = SINGLE, bs_size = 1\<rparr>\<rparr>,
              p_spacing := Some (simple_spacing 120 120)\<rparr>]"
  using blank_run_one_spacer [of "TParagraph ''a''" 3 initial_section_state "[]" "[THr]"]
  by (simp add: translate_section_def numeral_3_eq_3 process_token_def type_changed_def push_def)

text \<open>
  Claim C2 as stated fails for a run at the start of a section: two blank-space tokens
  before a rule give the blocks of the rule alone, with no spacer block among them.
\<close>

theorem leading_blank_run_counterexample:
  "children (translate_section [TSpace, TSpace, THr]) = children (translate_section [THr])
   \<and> blank_spacer \<notin> set (children (translate_section [TSpace, TSpace, THr]))"
  by (simp add: translate_section_def process_token_def type_changed_def push_def
        initial_section_state_def blank_spacer_def empty_paragraph_def)

section \<open>Numbering references\<close>

lemma digit_char_inj: "a < 10 \<Longrightarrow> b < 10 \<Longrightarrow> digit_char a = digit_char b \<Longrightarrow> a = b"
proof -
  assume a: "a < 10" and b: "b < 10" and e: "digit_char a = digit_char b"
  from e have "of_char (char_of (48 + a) :: char) = (of_char (char_of (48 + b) :: char) :: nat)"
    by (simp add: digit_char_def)
  with a b show "a = b" by (simp add: of_char_of)
qed

lemma show_nat_nonempty: "show_nat n \<noteq> []"
  by (subst show_nat.simps) simp

lemma show_nat_inj: "show_nat m = show_nat n \<Longrightarrow> m = n"
proof (induction m arbitrary: n rule: show_nat.induct)
  case (1 m)
  show ?case
  proof (cases "m < 10")
    case True
    with "1.prems" have "length (show_nat n) = 1"
      by (subst (asm) show_nat.simps) (simp, metis length_Cons list.size(3) One_nat_def)
    then have n: "n < 10"
      using show_nat_nonempty [of "n div 10"]
      by (subst (asm) show_nat.simps) (auto split: if_splits)
    from "1.prems" True n have "digit_char m = digit_char n"
      by (subst (asm) show_nat.simps, subst (asm) (2) show_nat.simps) simp
    with True n show ?thesis by (rule digit_char_inj)
  next
    case False
    have n: "\<not> n < 10"
    proof
      assume "n < 10"
      then have "length (show_nat n) = 1" by (subst show_nat.simps) simp
      with "1.prems" have "length (show_nat m) = 1" by simp
      with False show False
        using show_nat_nonempty [of "m div 10"]
        by (subst (asm) show_nat.simps) (auto split: if_splits)
    qed
    from "1.prems" False n
    have "show_nat (m div 10) @ [digit_char (m mod 10)] = show_nat (n div 10) @ [digit_char (n mod 10)]"
      by (subst (asm) show_nat.simps, subst (asm) (2) show_nat.simps) simp
    then have d: "show_nat (m div 10) = show_nat (n div 10)" and r: "digit_char (m mod 10) = digit_char (n mod 10)"
      by simp_all
    from "1.IH" [OF False d] have "m div 10 = n div 10" .
    moreover from r have "m mod 10 = n mod 10" by (intro digit_char_inj) simp_all
    ultimately show ?thesis by (metis div_mult_mod_eq)
  qed
qed

lemma type_changed_fields:
  "listCounter (type_changed st t) = listCounter st"
  "logged (type_changed st t) = logged st"
  "children (type_changed st t) = children st \<or> children (type_changed st t) = children st @ [blank_spacer]"
  by (auto simp: type_changed_def push_def Let_def split: option.splits)

lemma numbering_list_item_block:
  "p_numbering (list_item_block ord ref f item) =
     (if ord then Some \<lparr>nu_reference = the ref, nu_level = 0\<rparr> else None)"
  by (simp add: list_item_block_def Let_def empty_paragraph_def)

lemma refs_below_step:
  assumes "\<forall>b\<in>set (children st). \<forall>nu. p_numbering b = Some nu \<longrightarrow>
             (\<exists>j<listCounter st. nu_reference nu = ''list-'' @ show_nat j)"
  shows "\<forall>b\<in>set (children (process_token st t)). \<forall>nu. p_numbering b = Some nu \<longrightarrow>
             (\<exists>j<listCounter (process_token st t). nu_reference nu = ''list-'' @ show_nat j)"
proof -
  let ?s = "type_changed st t"
  have s: "\<forall>b\<in>set (children ?s). \<forall>nu. p_numbering b = Some nu \<longrightarrow>
             (\<exists>j<listCounter ?s. nu_reference nu = ''list-'' @ show_nat j)"
    using assms type_changed_fields(3) [of st t]
    by (auto simp: type_changed_fields(1) blank_spacer_def empty_paragraph_def)
  show ?thesis
  proof (cases t)
    case (TList ordered items)
    show ?thesis
    proof (cases ordered)
      case True
      with TList s show ?thesis
        by (fastforce simp: process_token_def Let_def items_loop_cases numbering_list_item_block
              type_changed_fields(1) less_Suc_eq split: list.splits)
    next
      case False
      with TList s show ?thesis
        by (auto simp: process_token_def Let_def items_loop_cases numbering_list_item_block
              type_changed_fields(1) split: list.splits)
    qed
  next
    case (TBlockquote toks)
    have "\<forall>b\<in>set [quote_block txt. TParagraph txt \<leftarrow> toks]. p_numbering b = None"
      by (auto simp: quote_block_def empty_paragraph_def split: token.splits)
    with TBlockquote s show ?thesis
      by (auto simp: process_token_def quote_loop_eq)
  qed (use s in \<open>auto simp: process_token_def push_def empty_paragraph_def Let_def\<close>)
qed

lemma refs_below_loop:
  assumes "\<forall>b\<in>set (children st). \<forall>nu. p_numbering b = Some nu \<longrightarrow>
             (\<exists>j<listCounter st. nu_reference nu = ''list-'' @ show_nat j)"
  shows "\<forall>b\<in>set (children (tokens_loop st toks)). \<forall>nu. p_numbering b = Some nu \<longrightarrow>
             (\<exists>j<listCounter (tokens_loop st toks). nu_reference nu = ''list-'' @ show_nat j)"
  using assms
proof (induction toks arbitrary: st)
  case Nil
  then show ?case by simp
next
  case (Cons t toks)
  show ?case
    unfolding tokens_loop.simps
    by (rule Cons.IH) (rule refs_below_step [OF Cons.prems])
qed

lemma refs_below_section:
  "\<forall>b\<in>set (children (translate_section toks)). \<forall>nu. p_numbering b = Some nu \<longrightarrow>
     (\<exists>j<listCounter (translate_section toks). nu_reference nu = ''list-'' @ show_nat j)"
  unfolding translate_section_def
  by (rule refs_below_loop) (simp add: initial_section_state_def)

lemma list_token_step:
  "process_token st (TList ordered (item # rest)) =
     st\<lparr>consecutiveBreaks := 0,
        listCounter := (if ordered then listCounter st + 1 else listCounter st),
        children := children st @
           list_item_block ordered (if ordered then Some (''list-'' @ show_nat (listCounter st)) else None) True item
           # map (list_item_block ordered (if ordered then Some (''list-'' @ show_nat (listCounter st)) else None) False) rest,
        lastTokenType := Some ''list''\<rparr>"
  by (simp add: process_token_def type_changed_other Let_def items_loop_rest push_def)

text \<open>
  Claim C3, amended. In the state reached after any tokens \<open>pre\<close> of a section, a
  list token pushes one block per item, in order, each with the runs of the item's
  text. The first item's block has the spacing 80 before it and every later one 40:
  the first item carries the larger leading spacing, not the smaller one. An ordered
  list takes the reference \<open>list-c\<close> for the section's counter \<open>c\<close>, which no
  earlier block of the section carries, and advances the counter; an unordered list
  leaves the counter as it is and its blocks carry a bullet and no numbering reference.
\<close>

theorem list_items_emitted:
  "(let st = translate_section pre;
        numberingRef = (if ordered then Some (''list-'' @ show_nat (listCounter st)) else None);
        st' = process_token st (TList ordered (item # rest))
    in children st' = children st @ list_item_block ordered numberingRef True item
                                    # map (list_item_block ordered numberingRef False) rest
       \<and> (\<forall>isFirst it. p_children (list_item_block ordered numberingRef isFirst it) =
                         Some (map RunChild (processFormattedText (item_text it)))
                      \<and> map_option sp_before (p_spacing (list_item_block ordered numberingRef isFirst it)) =
                         Some (if isFirst then 80 else 40))
       \<and> (ordered \<longrightarrow>
            listCounter st' = listCounter st + 1
            \<and> (\<forall>isFirst it. p_numbering (list_item_block ordered numberingRef isFirst it) =
                    Some \<lparr>nu_reference = ''list-'' @ show_nat (listCounter st), nu_level = 0\<rparr>
                  \<and> p_bullet (list_item_block ordered numberingRef isFirst it) = None)
            \<and> (\<forall>b\<in>set (children st). \<forall>nu. p_numbering b = Some nu \<longrightarrow>
                    nu_reference nu \<noteq> ''list-'' @ show_nat (listCounter st)))
       \<and> (\<not> ordered \<longrightarrow>
            listCounter st' = listCounter st
            \<and> (\<forall>isFirst it. p_numbering (list_item_block ordered numberingRef isFirst it) = None
                  \<and> p_bullet (list_item_block ordered numberingRef isFirst it) = Some 0)))"
proof -
  let ?st = "translate_section pre"
  have fresh: "nu_reference nu \<noteq> ''list-'' @ show_nat (listCounter ?st)"
    if "b \<in> set (children ?st)" "p_numbering b = Some nu" for b nu
  proof -
    from refs_below_section [of pre] that
    obtain j where "j < listCounter ?st" "nu_reference nu = ''list-'' @ show_nat j"
      by blast
    then show ?thesis using show_nat_inj [of j "listCounter ?st"] by auto
  qed
  show ?thesis
    unfolding Let_def list_token_step
    using fresh by (auto simp: list_item_block_def Let_def empty_paragraph_def line_spacing_def)
qed

theorem list_items_emitted_witness:
  "children (process_token (translate_section [TParagraph ''p''])
       (TList True [ListItem ''a'', ListItem ''b''])) =
     children (translate_section [TParagraph ''p''])
       @ [list_item_block True (Some ''list-0'') True (ListItem ''a''),
          list_item_block True (Some ''list-0'') False (ListItem ''b'')]"
proof -
  have c: "listCounter (translate_section [TParagraph ''p'']) = 0"
    by (simp add: translate_section_def process_token_def type_changed_def push_def
          initial_section_state_def)
  have z: "show_nat 0 = ''0''"
    by code_simp
  from list_items_emitted [where ordered = True and pre = "[TParagraph ''p'']"
                             and item = "ListItem ''a''" and rest = "[ListItem ''b'']"]
  show ?thesis
    by (simp add: Let_def c z)
qed

text \<open>
  Claim C3 as stated fails on the spacing: in a list of two items the block of the
  first item has 80 before it and the block of the second 40.
\<close>

theorem first_item_spacing_counterexample:
  "map (\<lambda>b. map_option sp_before (p_spacing b))
       (children (translate_section [TList True [ListItem ''a'', ListItem ''b'']])) =
     [Some 80, Some 40]"
  by (simp add: translate_section_def list_token_step list_item_block_def Let_def
        empty_paragraph_def line_spacing_def initial_section_state_def)

lemma show_nat_0: "show_nat 0 = ''0''"
  by code_simp

lemma process_token_extends: "\<exists>ext. children (process_token st t) = children st @ ext"
proof -
  obtain e where e: "children (type_changed st t) = children st @ e"
    using type_changed_fields(3) [of st t] by auto
  show ?thesis
    using e
    by (cases t)
       (auto simp add: process_token_def push_def Let_def items_loop_cases quote_loop_eq)
qed

lemma tokens_loop_extends: "\<exists>ext. children (tokens_loop st toks) = children st @ ext"
proof (induction toks arbitrary: st)
  case Nil
  then show ?case by simp
next
  case (Cons t toks)
  from process_token_extends [of st t] obtain e1 where
    "children (process_token st t) = children st @ e1" ..
  moreover from Cons.IH [of "process_token st t"] obtain e2 where
    "children (tokens_loop (process_token st t) toks) = children (process_token st t) @ e2" ..
  ultimately show ?case by simp
qed

lemma first_ordered_list_reference:
  "map_option nu_reference
     (p_numbering (hd (children (translate_section (TList True (item # rest) # toks))))) =
   Some ''list-0''"
proof -
  let ?st = "process_token initial_section_state (TList True (item # rest))"
  from tokens_loop_extends [of ?st toks] obtain ext where
    "children (translate_section (TList True (item # rest) # toks)) = children ?st @ ext"
    by (auto simp: translate_section_def)
  then have "hd (children (translate_section (TList True (item # rest) # toks))) =
             list_item_block True (Some (''list-'' @ show_nat 0)) True item"
    by (simp add: list_token_step initial_section_state_def)
  then show ?thesis
    by (simp add: numbering_list_item_block show_nat_0)
qed

text \<open>
  Claim C1. The counter of ordered lists is a variable of the body of the loop over
  the sections, so it starts at 0 in every section. For the input \<open>1. a\p1. b\<close> the
  two ordered lists, in two sections, both carry the reference \<open>list-0\<close>; the block
  between them is the spacer between the sections. More generally, in any section
  that starts with an ordered list, that list carries \<open>list-0\<close>.
\<close>

theorem ordered_lists_share_reference_across_sections:
  "map_sum id (\<lambda>d. map (\<lambda>b. map_option nu_reference (p_numbering b)) (doc_children d))
     (snd (convertMarkdownToDocx sample_lexer (''1. a'' @ CUSTOM_PARAGRAPH_BREAK @ ''1. b''))) =
   Inr [Some ''list-0'', None, Some ''list-0'']
   \<and> (\<forall>item rest toks.
         map_option nu_reference
           (p_numbering (hd (children (translate_section (TList True (item # rest) # toks))))) =
         Some ''list-0'')"
proof -
  have "map_sum id (\<lambda>d. map (\<lambda>b. map_option nu_reference (p_numbering b)) (doc_children d))
     (snd (convertMarkdownToDocx sample_lexer (''1. a'' @ CUSTOM_PARAGRAPH_BREAK @ ''1. b''))) =
   Inr [Some ''list-0'', None, Some ''list-0'']"
  by (simp add: convertMarkdownToDocx_def CUSTOM_PARAGRAPH_BREAK_def split_str_def startsWith_def
        trim_def is_white_space_def sample_lexer_def translate_section_def list_token_step
        initial_section_state_def list_item_block_def Let_def empty_paragraph_def show_nat_0
        section_spacer_def)
  then show ?thesis
    using first_ordered_list_reference by blast
qed

section \<open>Properties of the assembled document\<close>

lemma numbering_loop_eq:
  "i \<le> 100 \<Longrightarrow> numbering_loop i cs = cs @ map numbering_entry [i..<100]"
proof (induction i cs rule: numbering_loop.induct)
  case (1 i cs)
  show ?case
  proof (cases "i < 100")
    case True
    then have "numbering_loop i cs = numbering_loop (i + 1) (cs @ [numbering_entry i])"
      by (subst numbering_loop.simps) simp
    also have "\<dots> = (cs @ [numbering_entry i]) @ map numbering_entry [i + 1..<100]"
      using True by (intro "1.IH") simp_all
    also have "\<dots> = cs @ map numbering_entry [i..<100]"
      using True by (simp add: upt_conv_Cons)
    finally show ?thesis .
  next
    case False
    with "1.prems" show ?thesis by (subst numbering_loop.simps) simp
  qed
qed

lemma numbering_pool: "numbering_loop 0 [] = map numbering_entry [0..<100]"
  by (simp add: numbering_loop_eq)

lemma convert_numbering:
  "snd (convertMarkdownToDocx lexer md) = Inr doc \<Longrightarrow> doc_numbering doc = numbering_loop 0 []"
  by (auto simp: convertMarkdownToDocx_def Let_def split: sum.splits prod.splits)

lemma show_nat_99: "show_nat 99 = ''99''"
  by code_simp

text \<open>
  Claim C8. Whenever the conversion returns a document, its numbering definitions are
  the same 100 entries, with the references \<open>list-0\<close> to \<open>list-99\<close>, all distinct,
  each with one level of format \<open>decimal\<close>, text \<open>%1.\<close>, left indent 720 and hanging
  indent 360. The input does not enter the loop that builds them.
\<close>

theorem numbering_pool_fixed:
  assumes "snd (convertMarkdownToDocx lexer md) = Inr doc"
  shows "doc_numbering doc = map numbering_entry [0..<100]
         \<and> length (doc_numbering doc) = 100
         \<and> (\<forall>i<100. doc_numbering doc ! i =
               \<lparr>nc_reference = ''list-'' @ show_nat i,
                nc_levels = [\<lparr>lv_level = 0, lv_format = ''decimal'', lv_text = ''%1.'',
                              lv_alignment = LEFT,
                              lv_indent = \<lparr>ind_left = 720, ind_hanging = Some 360\<rparr>\<rparr>]\<rparr>)
         \<and> nc_reference (doc_numbering doc ! 0) = ''list-0''
         \<and> nc_reference (doc_numbering doc ! 99) = ''list-99''
         \<and> distinct (map nc_reference (doc_numbering doc))"
proof -
  have pool: "doc_numbering doc = map numbering_entry [0..<100]"
    using convert_numbering [OF assms] by (simp add: numbering_pool)
  have "inj_on (\<lambda>i. nc_reference (numbering_entry i)) (set [0..<100])"
    by (rule inj_onI) (auto simp: numbering_entry_def dest: show_nat_inj)
  then have "distinct (map (\<lambda>i. nc_reference (numbering_entry i)) [0..<100])"
    by (simp add: distinct_map)
  then have d: "distinct (map nc_reference (doc_numbering doc))"
    by (simp add: pool comp_def)
  have e: "\<forall>i<100. doc_numbering doc ! i = numbering_entry i"
    by (simp add: pool)
  from pool d e show ?thesis
    by (simp add: numbering_entry_def show_nat_99 show_nat_0)
qed

theorem numbering_pool_fixed_witness:
  "map_sum id (\<lambda>d. (length (doc_numbering d), nc_reference (doc_numbering d ! 99)))
     (snd (convertMarkdownToDocx sample_lexer ''1. a'')) = Inr (100, ''list-99'')"
proof -
  obtain doc where e: "snd (convertMarkdownToDocx sample_lexer ''1. a'') = Inr doc"
    by (simp add: convertMarkdownToDocx_def CUSTOM_PARAGRAPH_BREAK_def split_str_def startsWith_def
          trim_def is_white_space_def sample_lexer_def Let_def)
  from numbering_pool_fixed [OF e] have
    "length (doc_numbering doc) = 100" and "nc_reference (doc_numbering doc ! 99) = ''list-99''"
    by blast+
  then show ?thesis
    by (simp add: e)
qed

lemma split_marker_absent:
  "CHR 0x5C \<notin> set s \<Longrightarrow> split_on CUSTOM_PARAGRAPH_BREAK acc s = [acc @ s]"
  by (induction s arbitrary: acc) (auto simp: startsWith_def CUSTOM_PARAGRAPH_BREAK_def)

lemma trim_blank: "\<forall>c\<in>set s. is_white_space c \<Longrightarrow> trim s = []"
proof -
  assume "\<forall>c\<in>set s. is_white_space c"
  then have d: "dropWhile is_white_space s = []" by simp
  show "trim s = []" unfolding trim_def d by simp
qed

text \<open>
  Claim C9. For an input of white-space characters only, the empty input included,
  the conversion returns a document with no block, whatever the tokenizer would do:
  such an input has no break marker, its one section is blank and has index 0, and
  the tokenizer is not called. The log holds the input sample and the line with the
  count of 0 paragraphs.
\<close>

theorem blank_input_empty_document:
  assumes "\<forall>c\<in>set md. is_white_space c"
  shows "convertMarkdownToDocx lexer md =
           ([InputSample (take (min 200 (length md)) md) (length md),
             Info ''Generated DOCX with 0 paragraphs''],
            Inr \<lparr>doc_numbering = map numbering_entry [0..<100], doc_children = []\<rparr>)"
proof -
  have "\<not> is_white_space (CHR 0x5C)"
    by (simp add: is_white_space_def)
  with assms have "CHR 0x5C \<notin> set md" by blast
  then have sections: "split_str CUSTOM_PARAGRAPH_BREAK md = [md]"
    by (simp add: split_str_def split_marker_absent)
  show ?thesis
    by (simp add: convertMarkdownToDocx_def sections trim_blank [OF assms] numbering_pool
          show_nat_0)
qed

theorem blank_input_empty_document_witness:
  "snd (convertMarkdownToDocx (\<lambda>src. Inl (TokenizerError ''fails'')) [CHR '' '', CHR 0x0A, CHR 0x09]) =
     Inr \<lparr>doc_numbering = map numbering_entry [0..<100], doc_children = []\<rparr>"
proof -
  have "\<forall>c\<in>set [CHR '' '', CHR 0x0A, CHR 0x09]. is_white_space c"
    by (simp add: is_white_space_def)
  from blank_input_empty_document [OF this] show ?thesis
    by simp
qed

lemma split_marker_length:
  "length (split_on CUSTOM_PARAGRAPH_BREAK acc s) = occurrences CUSTOM_PARAGRAPH_BREAK s + 1"
proof (induction "CUSTOM_PARAGRAPH_BREAK" acc s rule: split_on.induct)
  case (1 acc)
  then show ?case by simp
next
  case (2 acc c cs)
  show ?case
  proof (cases "startsWith CUSTOM_PARAGRAPH_BREAK (c # cs)")
    case True
    then obtain cs' where cs: "cs = CHR ''p'' # cs'" and c: "c = CHR 0x5C"
      by (cases cs) (auto simp: startsWith_def CUSTOM_PARAGRAPH_BREAK_def)
    have ne: "CUSTOM_PARAGRAPH_BREAK \<noteq> []" by (simp add: CUSTOM_PARAGRAPH_BREAK_def)
    have "length (split_on CUSTOM_PARAGRAPH_BREAK acc (c # cs)) =
          Suc (length (split_on CUSTOM_PARAGRAPH_BREAK [] (drop (length CUSTOM_PARAGRAPH_BREAK) (c # cs))))"
      using True ne by simp
    also have "\<dots> = Suc (occurrences CUSTOM_PARAGRAPH_BREAK (drop (length CUSTOM_PARAGRAPH_BREAK) (c # cs)) + 1)"
      using "2.hyps"(1) True ne by simp
    also have "drop (length CUSTOM_PARAGRAPH_BREAK) (c # cs) = cs'"
      by (simp add: cs CUSTOM_PARAGRAPH_BREAK_def)
    also have "Suc (occurrences CUSTOM_PARAGRAPH_BREAK cs' + 1) = occurrences CUSTOM_PARAGRAPH_BREAK (c # cs) + 1"
      using True by (simp add: cs) (simp add: startsWith_def CUSTOM_PARAGRAPH_BREAK_def)
    finally show ?thesis .
  next
    case False
    then show ?thesis using "2.hyps"(2) by simp
  qed
qed

lemma split_str_nonempty: "split_on sep acc s \<noteq> []"
  by (induction sep acc s rule: split_on.induct) auto

lemma not_section_spacer_neq: "not_section_spacer b \<Longrightarrow> b \<noteq> section_spacer"
  by (auto simp: not_section_spacer_def section_spacer_def empty_paragraph_def)

lemma step_not_section_spacer:
  assumes "\<forall>b\<in>set (children st). not_section_spacer b"
  shows "\<forall>b\<in>set (children (process_token st t)). not_section_spacer b"
proof -
  let ?s = "type_changed st t"
  have s: "\<forall>b\<in>set (children ?s). not_section_spacer b"
    using assms type_changed_fields(3) [of st t]
    by (auto simp: blank_spacer_def empty_paragraph_def not_section_spacer_def simple_spacing_def)
  show ?thesis
  proof (cases t)
    case (TList ordered items)
    with s show ?thesis
      by (auto simp: process_token_def Let_def items_loop_cases list_item_block_def
            not_section_spacer_def empty_paragraph_def simple_spacing_def line_spacing_def
            split: list.splits)
  next
    case (TBlockquote toks)
    have "\<forall>b\<in>set [quote_block txt. TParagraph txt \<leftarrow> toks]. not_section_spacer b"
      by (auto simp: quote_block_def empty_paragraph_def not_section_spacer_def split: token.splits)
    with TBlockquote s show ?thesis
      by (auto simp: process_token_def quote_loop_eq)
  qed (use s in \<open>auto simp: process_token_def push_def empty_paragraph_def Let_def
          not_section_spacer_def simple_spacing_def line_spacing_def\<close>)
qed

lemma loop_not_section_spacer:
  "\<forall>b\<in>set (children st). not_section_spacer b \<Longrightarrow>
   \<forall>b\<in>set (children (tokens_loop st toks)). not_section_spacer b"
proof (induction toks arbitrary: st)
  case Nil
  then show ?case by simp
next
  case (Cons t toks)
  show ?case
    unfolding tokens_loop.simps
    by (rule Cons.IH) (rule step_not_section_spacer [OF Cons.prems])
qed

lemma section_has_no_section_spacer:
  "section_spacer \<notin> set (children (translate_section toks))"
proof -
  have "\<forall>b\<in>set (children (translate_section toks)). not_section_spacer b"
    unfolding translate_section_def
    by (rule loop_not_section_spacer) (simp add: initial_section_state_def)
  then show ?thesis
    using not_section_spacer_neq by blast
qed

lemma count_section: "count_list (children (translate_section toks)) section_spacer = 0"
  using section_has_no_section_spacer by (simp add: count_list_0_iff)

lemma sections_loop_count:
  assumes "sections_loop lexer n i secs st = Inr st'" and "secs \<noteq> []"
    and "i + length secs = n" and "1 \<le> i"
  shows "count_list (allChildren st') section_spacer =
           count_list (allChildren st) section_spacer + (length secs - 1)
             + (if trim (last secs) = [] then 1 else 0)"
  using assms
proof (induction secs arbitrary: i st)
  case Nil
  then show ?case by simp
next
  case (Cons s rest)
  show ?case
  proof (cases "rest = []")
    case True
    with Cons.prems have i: "i = n - 1" "0 < i" by auto
    show ?thesis
    proof (cases "trim s = []")
      case blank: True
      with Cons.prems(1) True i show ?thesis by auto
    next
      case False
      with Cons.prems(1) True i show ?thesis
        by (auto simp: Let_def count_section split: sum.splits)
    qed
  next
    case False
    with Cons.prems have i: "i < n - 1" "0 < i" by auto
    from False have len: "length rest - 1 + 1 = length rest"
      by (cases rest) auto
    show ?thesis
    proof (cases "trim s = []")
      case blank: True
      with Cons.prems(1) i
      have run: "sections_loop lexer n (Suc i) rest (st\<lparr>allChildren := allChildren st @ [section_spacer]\<rparr>) = Inr st'"
        by simp
      from Cons.IH [OF run False] Cons.prems(3) False len show ?thesis
        by simp
    next
      case nonblank: False
      with Cons.prems(1) obtain toks where lx: "lexer (trim s) = Inr toks"
        by (auto split: sum.splits)
      let ?sec = "translate_section toks"
      let ?st2 = "st\<lparr>conv_log := conv_log st @ map Info (logged ?sec),
                      allChildren := allChildren st @ children ?sec @ [section_spacer]\<rparr>"
      from Cons.prems(1) nonblank lx i
      have run: "sections_loop lexer n (Suc i) rest ?st2 = Inr st'"
        by (simp add: Let_def)
      from Cons.IH [OF run False] Cons.prems(3) False len show ?thesis
        by (simp add: count_section)
    qed
  qed
qed

lemma sections_loop_extends:
  "sections_loop lexer n i secs st = Inr st' \<Longrightarrow> \<exists>ext. allChildren st' = allChildren st @ ext"
proof (induction secs arbitrary: i st)
  case Nil
  then show ?case by simp
next
  case (Cons s rest)
  show ?case
  proof (cases "trim s = []")
    case True
    with Cons.prems
    have "sections_loop lexer n (Suc i) rest
            (if i > 0 then st\<lparr>allChildren := allChildren st @ [section_spacer]\<rparr> else st) = Inr st'"
      by simp
    from Cons.IH [OF this] show ?thesis by (auto split: if_splits)
  next
    case False
    with Cons.prems obtain toks where lx: "lexer (trim s) = Inr toks"
      by (auto split: sum.splits)
    from Cons.prems False lx obtain st2 where
      run: "sections_loop lexer n (Suc i) rest st2 = Inr st'"
      and st2: "\<exists>e. allChildren st2 = allChildren st @ children (translate_section toks) @ e"
      by (auto simp: Let_def split: if_splits)
    from Cons.IH [OF run] st2 show ?thesis by auto
  qed
qed

lemma sections_loop_top:
  assumes "sections_loop lexer (length secs) 0 secs st = Inr st'" and "secs \<noteq> []"
  shows "count_list (allChildren st') section_spacer + (if trim (last secs) = [] then 0 else 1) =
           count_list (allChildren st) section_spacer + (length secs - 1)
             + (if trim (hd secs) = [] then 0 else 1)"
proof -
  from assms(2) obtain s rest where secs: "secs = s # rest" by (cases secs) auto
  show ?thesis
  proof (cases "rest = []")
    case True
    with assms(1) secs show ?thesis
      by (auto simp: Let_def count_section split: sum.splits if_splits)
  next
    case False
    then have len: "length rest - 1 + 1 = length rest"
      by (cases rest) auto
    show ?thesis
    proof (cases "trim s = []")
      case True
      with assms(1) secs have run: "sections_loop lexer (length secs) 1 rest st = Inr st'"
        by simp
      from sections_loop_count [OF run False] secs False True len show ?thesis
        by simp
    next
      case nonblank: False
      with assms(1) secs obtain toks where lx: "lexer (trim s) = Inr toks"
        by (auto split: sum.splits)
      let ?sec = "translate_section toks"
      let ?st2 = "st\<lparr>conv_log := conv_log st @ map Info (logged ?sec),
                      allChildren := allChildren st @ children ?sec @ [section_spacer]\<rparr>"
      from assms(1) secs nonblank lx False
      have run: "sections_loop lexer (length secs) 1 rest ?st2 = Inr st'"
        by (simp add: Let_def)
      from sections_loop_count [OF run False] secs False nonblank len show ?thesis
        by (simp add: count_section)
    qed
  qed
qed

lemma sections_loop_first:
  assumes "sections_loop lexer n 0 secs st = Inr st'" and "secs \<noteq> []"
    and "trim (hd secs) \<noteq> []" and "lexer (trim (hd secs)) = Inr toks"
  shows "\<exists>ext. allChildren st' = allChildren st @ children (translate_section toks) @ ext"
proof -
  from assms(2) obtain s rest where secs: "secs = s # rest" by (cases secs) auto
  from assms secs obtain st2 where
      run: "sections_loop lexer n 1 rest st2 = Inr st'"
      and st2: "\<exists>e. allChildren st2 = allChildren st @ children (translate_section toks) @ e"
    by (auto simp: Let_def split: if_splits)
  from sections_loop_extends [OF run] st2 show ?thesis by auto
qed

lemma convert_children:
  assumes "snd (convertMarkdownToDocx lexer md) = Inr doc"
  shows "\<exists>st'. sections_loop lexer (length (split_str CUSTOM_PARAGRAPH_BREAK md)) 0
                 (split_str CUSTOM_PARAGRAPH_BREAK md)
                 \<lparr>allChildren = [],
                  conv_log = [InputSample (take (min 200 (length md)) md) (length md)]\<rparr> = Inr st'
               \<and> doc_children doc = allChildren st'"
  using assms by (auto simp: convertMarkdownToDocx_def Let_def split: sum.splits prod.splits)

text \<open>
  Claim C4, amended. An input with \<open>k\<close> break markers has \<open>k + 1\<close> sections. When
  the conversion returns a document, the number of section spacers in it is \<open>k\<close>,
  plus one when the first section is not blank, minus one when the last section is not
  blank: a blank section pushes a spacer unless it is the first, a section that is not
  blank pushes one after its blocks unless it is the last. When the first section is
  not blank and gives at least one block, the first block of the document is not a
  section spacer; it can be the spacer of a run of blank tokens, which is another
  block. No block of a section equals the section spacer, so counting the blocks
  equal to it counts the spacers pushed by the loop over the sections.
\<close>

theorem section_spacer_count:
  assumes "snd (convertMarkdownToDocx lexer md) = Inr doc"
  shows "(let sections = split_str CUSTOM_PARAGRAPH_BREAK md;
              k = occurrences CUSTOM_PARAGRAPH_BREAK md
          in length sections = k + 1
             \<and> count_list (doc_children doc) section_spacer
                  + (if trim (last sections) = [] then 0 else 1) =
                k + (if trim (hd sections) = [] then 0 else 1)
             \<and> (\<forall>toks. trim (hd sections) \<noteq> [] \<and> lexer (trim (hd sections)) = Inr toks
                        \<and> children (translate_section toks) \<noteq> []
                   \<longrightarrow> doc_children doc \<noteq> [] \<and> hd (doc_children doc) \<noteq> section_spacer))"
proof -
  let ?secs = "split_str CUSTOM_PARAGRAPH_BREAK md"
  have len: "length ?secs = occurrences CUSTOM_PARAGRAPH_BREAK md + 1"
    by (simp add: split_str_def split_marker_length)
  have ne: "?secs \<noteq> []"
    by (simp add: split_str_def split_str_nonempty)
  from convert_children [OF assms] obtain st' where
    run: "sections_loop lexer (length ?secs) 0 ?secs
            \<lparr>allChildren = [], conv_log = [InputSample (take (min 200 (length md)) md) (length md)]\<rparr>
          = Inr st'"
    and dc: "doc_children doc = allChildren st'"
    by blast
  from sections_loop_top [OF run ne] len
  have count: "count_list (doc_children doc) section_spacer
                  + (if trim (last ?secs) = [] then 0 else 1) =
                occurrences CUSTOM_PARAGRAPH_BREAK md + (if trim (hd ?secs) = [] then 0 else 1)"
    by (simp add: dc)
  have first: "doc_children doc \<noteq> [] \<and> hd (doc_children doc) \<noteq> section_spacer"
    if "trim (hd ?secs) \<noteq> []" "lexer (trim (hd ?secs)) = Inr toks"
       "children (translate_section toks) \<noteq> []" for toks
  proof -
    from sections_loop_first [OF run ne that(1,2)] obtain ext where
      "doc_children doc = children (translate_section toks) @ ext"
      by (auto simp: dc)
    with that(3) have "doc_children doc \<noteq> []"
      and "hd (doc_children doc) \<in> set (children (translate_section toks))"
      by simp_all
    with section_has_no_section_spacer [of toks] show ?thesis by metis
  qed
  from len count first show ?thesis
    unfolding Let_def by blast
qed

theorem section_spacer_count_witness:
  "map_sum id (\<lambda>d. count_list (doc_children d) section_spacer)
     (snd (convertMarkdownToDocx sample_lexer [CHR ''a'', CHR 0x5C, CHR ''p''])) =
   Inr (occurrences CUSTOM_PARAGRAPH_BREAK [CHR ''a'', CHR 0x5C, CHR ''p''] + 1)"
proof -
  obtain doc where e: "snd (convertMarkdownToDocx sample_lexer [CHR ''a'', CHR 0x5C, CHR ''p'']) = Inr doc"
    by (simp add: convertMarkdownToDocx_def CUSTOM_PARAGRAPH_BREAK_def split_str_def startsWith_def
          trim_def is_white_space_def sample_lexer_def Let_def)
  have s: "split_str CUSTOM_PARAGRAPH_BREAK [CHR ''a'', CHR 0x5C, CHR ''p''] = [''a'', []]"
    by (simp add: CUSTOM_PARAGRAPH_BREAK_def split_str_def startsWith_def)
  have t: "trim ''a'' \<noteq> []" "trim [] = []"
    by (simp_all add: trim_def is_white_space_def)
  from section_spacer_count [OF e] have
    "count_list (doc_children doc) section_spacer + 0 =
       occurrences CUSTOM_PARAGRAPH_BREAK [CHR ''a'', CHR 0x5C, CHR ''p''] + 1"
    unfolding Let_def s using t by simp
  then show ?thesis
    by (simp add: e)
qed

text \<open>
  Claim C4 as stated fails. The input \<open>\pa\<close> has one break marker and its output
  has no section spacer: the empty first section pushes none, and the last section is
  not followed by one. The input \<open>\p\<close> has one marker and its output is one section
  spacer, at position 0.
\<close>

theorem section_spacer_count_counterexample:
  "occurrences CUSTOM_PARAGRAPH_BREAK (CUSTOM_PARAGRAPH_BREAK @ ''a'') = 1
   \<and> map_sum id (\<lambda>d. count_list (doc_children d) section_spacer)
        (snd (convertMarkdownToDocx sample_lexer (CUSTOM_PARAGRAPH_BREAK @ ''a''))) = Inr 0
   \<and> occurrences CUSTOM_PARAGRAPH_BREAK CUSTOM_PARAGRAPH_BREAK = 1
   \<and> map_sum id doc_children (snd (convertMarkdownToDocx sample_lexer CUSTOM_PARAGRAPH_BREAK)) =
        Inr [section_spacer]"
proof -
  have "occurrences CUSTOM_PARAGRAPH_BREAK (CUSTOM_PARAGRAPH_BREAK @ ''a'') = 1"
    and "occurrences CUSTOM_PARAGRAPH_BREAK CUSTOM_PARAGRAPH_BREAK = 1"
    by (simp_all add: CUSTOM_PARAGRAPH_BREAK_def startsWith_def)
  moreover have "map_sum id (\<lambda>d. count_list (doc_children d) section_spacer)
        (snd (convertMarkdownToDocx sample_lexer (CUSTOM_PARAGRAPH_BREAK @ ''a''))) = Inr 0"
    by code_simp
  moreover have "map_sum id doc_children (snd (convertMarkdownToDocx sample_lexer CUSTOM_PARAGRAPH_BREAK)) =
        Inr [section_spacer]"
    by (simp add: convertMarkdownToDocx_def CUSTOM_PARAGRAPH_BREAK_def split_str_def startsWith_def
          trim_def is_white_space_def)
  ultimately show ?thesis by simp
qed

end
